theory Spec2Isabelle
  imports Main "HOL-Library.Word"
begin

section \<open>The delayed-release queue of JContainers (autorelease\_queue.h)\<close>

subsection \<open>Wrap-around clock\<close>

text \<open>\<open>typedef uint32_t time_point\<close>: the tick counter is a 32-bit unsigned integer;
  \<open>+\<close> and \<open>-\<close> on it wrap modulo \<open>2 ^ 32\<close>, comparisons are unsigned.\<close>

type_synonym time_point = "32 word"

text \<open>\<open>(std::numeric_limits<time_point>::max)()\<close>.\<close>

definition time_max :: time_point where
  "time_max = 0xFFFFFFFF"

text \<open>\<open>static time_point time_subtract(time_point minuend, time_point subtrahend)\<close>.\<close>

definition time_subtract :: "time_point \<Rightarrow> time_point \<Rightarrow> time_point" where
  "time_subtract minuend subtrahend =
     (if minuend \<ge> subtrahend then minuend - subtrahend
      else time_max - (subtrahend - minuend))"

text \<open>\<open>static time_point time_add(time_point a, time_point b)\<close>.\<close>

definition time_add :: "time_point \<Rightarrow> time_point \<Rightarrow> time_point" where
  "time_add a b =
     (let max = time_max in
      if (max - a) > b then a + b
      else b - (max - a))"

subsection \<open>Configuration constants\<close>

text \<open>The two anonymous enums of the class: lifetime and sweep interval in seconds, and the
  lifetime counted in ticks.\<close>

definition obj_lifetime :: int where
  "obj_lifetime = 10"

definition tick_duration :: int where
  "tick_duration = 2"

definition one_tick :: int where
  "one_tick = 1"

definition tick_duration_millis :: int where
  "tick_duration_millis = 1000 * tick_duration"

definition obj_lifeInTicks :: int where
  "obj_lifeInTicks = obj_lifetime div tick_duration"

subsection \<open>Owned references and the queue state\<close>

text \<open>A \<open>queue_object_ref\<close> is a counted pointer to an object; \<open>None\<close> is the null
  pointer (what \<open>jc_nullify\<close> leaves behind). Objects are kept abstract (\<open>'o\<close>).\<close>

type_synonym 'o queue_object_ref = "'o option"

type_synonym 'o queue = "('o queue_object_ref \<times> time_point) list"

type_synonym 'h queue_old = "('h \<times> time_point) list"

text \<open>The modifying calls that the operations make on the members \<open>_timer\<close>, \<open>_queue\<close> and
  \<open>_toRelease\<close>, and the writes of \<open>_tickCounter\<close>.\<close>

datatype member_call =
  Timer_cancel
| Timer_expires_from_now
| Timer_async_wait
| Counter_write
| Queue_push_back
| Queue_erase
| Queue_clear
| Queue_load
| Ref_nullify
| ToRelease_push_back
| ToRelease_clear

text \<open>The members of \<open>autorelease_queue\<close> that the operations read and write. The timer is
  reduced to whether a wait is pending on it. Three logs record what the operations do beyond
  the values of the members: \<open>retained\<close> and \<open>released\<close> hold, in order, the objects on which
  \<open>object_lifetime_policy::retain\<close> and \<open>object_lifetime_policy::release\<close> have been called
  by references of this queue, and \<open>trace\<close> holds the member calls in program order.\<close>

record 'o autorelease_queue =
  queue :: "'o queue"
  tickCounter :: time_point
  toRelease :: "'o queue_object_ref list"
  timer_pending :: bool
  retained :: "'o list"
  released :: "'o list"
  trace :: "member_call list"

text \<open>Modelled from the spec: the counted pointer type \<open>intrusive_ptr_jc\<close> is declared outside
  this file. An owned reference holds one unit of the object's reference count, released exactly
  once when the reference is destroyed; a null reference releases nothing. \<open>released_by rs\<close> are
  the release calls made when the references \<open>rs\<close> are destroyed front to back.\<close>

fun released_by :: "'o queue_object_ref list \<Rightarrow> 'o list" where
  "released_by [] = []"
| "released_by (None # rs) = released_by rs"
| "released_by (Some p # rs) = p # released_by rs"

text \<open>Modelled from the spec: a reference that is created for an object, from a pointer or as
  a copy of another reference, acquires its unit by one retain call; a null reference retains
  nothing. \<open>retained_by rs\<close> are the retain calls made when the references \<open>rs\<close> are created
  front to back.\<close>

fun retained_by :: "'o queue_object_ref list \<Rightarrow> 'o list" where
  "retained_by [] = []"
| "retained_by (None # rs) = retained_by rs"
| "retained_by (Some p # rs) = p # retained_by rs"

text \<open>\<open>_queue.clear()\<close> and \<open>_toRelease.clear()\<close>: the container is emptied and its elements
  are destroyed.\<close>

definition clear_queue :: "'o autorelease_queue \<Rightarrow> 'o autorelease_queue" where
  "clear_queue s =
     s\<lparr>queue := [], released := released s @ released_by (map fst (queue s)),
       trace := trace s @ [Queue_clear]\<rparr>"

definition clear_toRelease :: "'o autorelease_queue \<Rightarrow> 'o autorelease_queue" where
  "clear_toRelease s =
     s\<lparr>toRelease := [], released := released s @ released_by (toRelease s),
       trace := trace s @ [ToRelease_clear]\<rparr>"

subsection \<open>Timer\<close>

text \<open>\<open>u_startTimer\<close> sets the expiry and registers the wait; \<open>stop\<close> cancels the pending
  wait. Both run under \<open>_timer_mutex\<close>, which the sequential model does not represent.\<close>

definition u_startTimer :: "'o autorelease_queue \<Rightarrow> 'o autorelease_queue" where
  "u_startTimer s =
     s\<lparr>timer_pending := True,
       trace := trace s @ [Timer_expires_from_now, Timer_async_wait]\<rparr>"

definition restartTimer :: "'o autorelease_queue \<Rightarrow> 'o autorelease_queue" where
  "restartTimer s = u_startTimer s"

definition start :: "'o autorelease_queue \<Rightarrow> 'o autorelease_queue" where
  "start s = restartTimer s"

definition stop :: "'o autorelease_queue \<Rightarrow> 'o autorelease_queue" where
  "stop s = s\<lparr>timer_pending := False, trace := trace s @ [Timer_cancel]\<rparr>"

subsection \<open>Queue operations\<close>

text \<open>The constructor: counter 0, empty containers, then \<open>start()\<close>.\<close>

definition new_queue :: "'o autorelease_queue" where
  "new_queue =
     start \<lparr>queue = [], tickCounter = 0, toRelease = [], timer_pending = False,
            retained = [], released = [], trace = []\<rparr>"

definition u_clear :: "'o autorelease_queue \<Rightarrow> 'o autorelease_queue" where
  "u_clear s =
     (let s1 = stop s;
          s2 = s1\<lparr>tickCounter := 0, trace := trace s1 @ [Counter_write]\<rparr>;
          s3 = clear_queue s2
      in clear_toRelease s3)"

definition prolong_lifetime :: "'o autorelease_queue \<Rightarrow> 'o \<Rightarrow> bool \<Rightarrow> 'o autorelease_queue" where
  "prolong_lifetime s object isPublic =
     (let pushedTime = (if isPublic then tickCounter s
                        else time_subtract (tickCounter s) (word_of_int obj_lifeInTicks))
      in s\<lparr>queue := queue s @ [(Some object, pushedTime)],
           retained := retained s @ [object],
           trace := trace s @ [Queue_push_back]\<rparr>)"

definition u_count :: "'o autorelease_queue \<Rightarrow> nat" where
  "u_count s = length (queue s)"

definition count :: "'o autorelease_queue \<Rightarrow> nat" where
  "count s = u_count s"

definition u_nullify :: "'o autorelease_queue \<Rightarrow> 'o autorelease_queue" where
  "u_nullify s =
     s\<lparr>queue := map (\<lambda>pair. (None, snd pair)) (queue s),
       trace := trace s @ replicate (length (queue s)) Ref_nullify\<rparr>"

definition lifetimeDiff :: "'o autorelease_queue \<Rightarrow> time_point \<Rightarrow> time_point" where
  "lifetimeDiff s time = time_subtract (tickCounter s) time"

subsection \<open>The sweep\<close>

text \<open>The predicate passed to \<open>std::remove_if\<close> in \<open>tick\<close>, at counter value \<open>tc\<close>.
  \<open>diff\<close> is a 32-bit unsigned value, so the \<open>+ 1\<close> wraps.\<close>

definition should_release :: "time_point \<Rightarrow> 'o queue_object_ref \<times> time_point \<Rightarrow> bool" where
  "should_release tc val =
     (let diff = time_subtract tc (snd val) + 1;
          release = (diff \<ge> word_of_int obj_lifeInTicks)
      in release)"

text \<open>The part of \<open>tick\<close> under \<open>_queue_mutex\<close>. The predicate receives each entry as
  \<open>const queue::value_type&\<close>, so \<open>std::move(val.first)\<close> is a constant reference and
  \<open>_toRelease.push_back\<close> copies it: every entry to release gets a second reference at the end
  of \<open>_toRelease\<close>, which retains the object. \<open>std::remove_if\<close> then moves the entries that
  stay to the front, in order, and \<open>_queue.erase\<close> destroys the rest, so the reference of every
  entry to release that the queue held is released, in queue order. Then the counter
  advances.\<close>

definition tick_scan :: "'o autorelease_queue \<Rightarrow> 'o autorelease_queue" where
  "tick_scan s =
     (let expired = filter (should_release (tickCounter s)) (queue s)
      in s\<lparr>queue := filter (\<lambda>val. \<not> should_release (tickCounter s) val) (queue s),
           toRelease := toRelease s @ map fst expired,
           retained := retained s @ retained_by (map fst expired),
           released := released s @ released_by (map fst expired),
           tickCounter := time_add (tickCounter s) (word_of_int one_tick),
           trace := trace s @ replicate (length expired) ToRelease_push_back @
                    [Queue_erase, Counter_write]\<rparr>)"

text \<open>\<open>tick\<close>: the scan, then \<open>_toRelease.clear()\<close>, which destroys the copies, then
  \<open>u_startTimer\<close>.\<close>

definition tick :: "'o autorelease_queue \<Rightarrow> 'o autorelease_queue" where
  "tick s =
     (let s1 = tick_scan s;
          s2 = clear_toRelease s1
      in u_startTimer s2)"

text \<open>\<open>n\<close> consecutive sweep cycles.\<close>

fun sweeps :: "nat \<Rightarrow> 'o autorelease_queue \<Rightarrow> 'o autorelease_queue" where
  "sweeps 0 s = s"
| "sweeps (Suc n) s = sweeps n (tick s)"

subsection \<open>Loading\<close>

text \<open>The archive is a template parameter of \<open>load\<close>; it enters the model as the three reads
  \<open>load\<close> performs on it, each returning the value read and the rest of the archive.\<close>

record ('ar, 'h, 'o) archive_ops =
  read_time :: "'ar \<Rightarrow> time_point \<times> 'ar"
  read_queue :: "'ar \<Rightarrow> 'o queue \<times> 'ar"
  read_queue_old :: "'ar \<Rightarrow> 'h queue_old \<times> 'ar"

text \<open>Modelled from the spec: the macro \<open>jc_assert\<close> is defined outside this file; a failing
  assertion is a fatal, unrecoverable condition.\<close>

datatype load_error = assertion_failed

text \<open>The \<open>for\<close> loop of the version-0 branch; \<open>registry\<close> stands for
  \<open>_registry.u_getObject\<close>, which yields the object of a handle or null.\<close>

fun push_resolved :: "('h \<Rightarrow> 'o option) \<Rightarrow> 'h queue_old \<Rightarrow> 'o queue \<Rightarrow> 'o queue" where
  "push_resolved registry [] q = q"
| "push_resolved registry (pair # old) q =
     (case registry (fst pair) of
        Some object \<Rightarrow> push_resolved registry old (q @ [(Some object, snd pair)])
      | None \<Rightarrow> push_resolved registry old q)"

text \<open>The objects that the version-0 loop resolves, in order: each gets a reference created
  from the pointer the registry returned.\<close>

definition resolved :: "('h \<Rightarrow> 'o option) \<Rightarrow> 'h queue_old \<Rightarrow> 'o list" where
  "resolved registry old = retained_by (map (\<lambda>pair. registry (fst pair)) old)"

text \<open>\<open>load(ar, version)\<close>. Reading into \<open>_queue\<close> replaces its contents, so the references
  held before are destroyed, and every reference read is created for its object.\<close>

definition load ::
  "('ar, 'h, 'o) archive_ops \<Rightarrow> ('h \<Rightarrow> 'o option) \<Rightarrow> 'ar \<Rightarrow> nat \<Rightarrow> 'o autorelease_queue
     \<Rightarrow> load_error + ('o autorelease_queue \<times> 'ar)" where
  "load ops registry ar version s =
     (let (t, ar1) = read_time ops ar;
          s1 = s\<lparr>tickCounter := t, trace := trace s @ [Counter_write]\<rparr>
      in if version = 1 then
           (let (q, ar2) = read_queue ops ar1
            in Inr (s1\<lparr>queue := q,
                      retained := retained s1 @ retained_by (map fst q),
                      released := released s1 @ released_by (map fst (queue s1)),
                      trace := trace s1 @ [Queue_load]\<rparr>, ar2))
         else if version = 0 then
           (let (old, ar2) = read_queue_old ops ar1
            in Inr (s1\<lparr>queue := push_resolved registry old (queue s1),
                      retained := retained s1 @ resolved registry old,
                      trace := trace s1 @
                        replicate (length (resolved registry old)) Queue_push_back\<rparr>, ar2))
         else Inl assertion_failed)"

section \<open>Auxiliary facts\<close>

lemma unat_bound32: "unat (w :: 32 word) \<le> 4294967295"
  using unsigned_less[of w, where ?'a=nat] by simp

lemma unat_time_subtract:
  "unat (time_subtract m s) =
     (if unat s \<le> unat m then unat m - unat s else 4294967295 - (unat s - unat m))"
  using unat_bound32[of m] unat_bound32[of s]
  unfolding time_subtract_def time_max_def
  by (auto simp: word_le_nat_alt unat_sub_if_size word_size split: if_splits)

lemma unat_time_add:
  "unat (time_add a b) =
     (if unat a + unat b < 4294967295 then unat a + unat b else unat a + unat b - 4294967295)"
  using unat_bound32[of a] unat_bound32[of b]
  unfolding time_add_def time_max_def Let_def
  by (auto simp: word_less_nat_alt word_le_nat_alt unat_sub_if_size unat_word_ariths word_size split: if_splits)

lemma unat_time_max: "unat time_max = 4294967295"
  by (simp add: time_max_def)

lemma obj_lifeInTicks_eq: "obj_lifeInTicks = 5"
  by (simp add: obj_lifeInTicks_def obj_lifetime_def tick_duration_def)

lemma consts_word [simp]:
  "(word_of_int obj_lifeInTicks :: time_point) = 5"
  "(word_of_int one_tick :: time_point) = 1"
  by (simp_all add: obj_lifeInTicks_eq one_tick_def)

lemma should_release_fun:
  "should_release tc = (\<lambda>val. time_subtract tc (snd val) + 1 \<ge> word_of_int obj_lifeInTicks)"
  by (rule ext) (simp add: should_release_def)

lemma should_release_small:
  "unat (time_subtract tc (snd val)) < 4294967295 \<Longrightarrow>
   should_release tc val \<longleftrightarrow> 4 \<le> unat (time_subtract tc (snd val))"
  unfolding should_release_def Let_def
  by (simp add: word_le_nat_alt unat_word_ariths)

lemma elapsed_step:
  "unat (time_subtract c p) < 4294967294 \<Longrightarrow>
   unat (time_subtract (time_add c 1) p) = unat (time_subtract c p) + 1"
  using unat_bound32[of c] unat_bound32[of p]
  by (auto simp: unat_time_subtract unat_time_add split: if_splits)

lemma backdated_elapsed: "time_subtract T (time_subtract T 5) = 5"
  apply (rule word_unat_eq_iff[THEN iffD2])
  using unat_bound32[of T]
  apply (auto simp: unat_time_subtract split: if_splits)
  done

lemma queue_tick: "queue (tick s) = filter (\<lambda>val. \<not> should_release (tickCounter s) val) (queue s)"
  by (simp add: tick_def tick_scan_def clear_toRelease_def u_startTimer_def Let_def)

lemma tickCounter_tick: "tickCounter (tick s) = time_add (tickCounter s) 1"
  by (simp add: tick_def tick_scan_def clear_toRelease_def u_startTimer_def Let_def)

lemma sweeps_add: "sweeps (m + n) s = sweeps n (sweeps m s)"
  by (induction m arbitrary: s) simp_all

lemma sweeps_snoc: "sweeps (Suc n) s = tick (sweeps n s)"
  by (induction n arbitrary: s) simp_all

lemma sweeps_cong:
  "tickCounter s' = tickCounter s \<Longrightarrow> queue s' = queue s \<Longrightarrow>
   queue (sweeps n s') = queue (sweeps n s) \<and> tickCounter (sweeps n s') = tickCounter (sweeps n s)"
  by (induction n arbitrary: s s') (simp_all add: queue_tick tickCounter_tick)

lemma sweeps_keep:
  "tickCounter s' = tickCounter s \<Longrightarrow> queue s' = queue s @ [e] \<Longrightarrow>
   unat (time_subtract (tickCounter s) (snd e)) + n \<le> 4 \<Longrightarrow>
   queue (sweeps n s') = queue (sweeps n s) @ [e] \<and>
   tickCounter (sweeps n s') = tickCounter (sweeps n s) \<and>
   unat (time_subtract (tickCounter (sweeps n s)) (snd e)) =
     unat (time_subtract (tickCounter s) (snd e)) + n"
proof (induction n arbitrary: s s')
  case 0
  then show ?case by simp
next
  case (Suc n)
  let ?d = "unat (time_subtract (tickCounter s) (snd e))"
  from Suc.prems have small: "?d < 4" by simp
  then have keep: "\<not> should_release (tickCounter s) e"
    by (simp add: should_release_small)
  have tc: "tickCounter (tick s') = tickCounter (tick s)"
    using Suc.prems by (simp add: tickCounter_tick)
  have q: "queue (tick s') = queue (tick s) @ [e]"
    using Suc.prems keep by (simp add: queue_tick)
  have d: "unat (time_subtract (tickCounter (tick s)) (snd e)) = ?d + 1"
    using small by (simp add: tickCounter_tick elapsed_step)
  from Suc.IH[OF tc q] d Suc.prems show ?case by simp
qed

lemma tick_drop:
  "tickCounter s' = tickCounter s \<Longrightarrow> queue s' = queue s @ [e] \<Longrightarrow>
   should_release (tickCounter s) e \<Longrightarrow>
   queue (tick s') = queue (tick s) \<and> tickCounter (tick s') = tickCounter (tick s)"
  by (simp add: queue_tick tickCounter_tick)

lemma public_entry_sweeps:
  "queue (sweeps n (prolong_lifetime s x True)) =
     queue (sweeps n s) @ (if n < 5 then [(Some x, tickCounter s)] else []) \<and>
   tickCounter (sweeps n (prolong_lifetime s x True)) = tickCounter (sweeps n s)"
proof -
  let ?s' = "prolong_lifetime s x True"
  let ?e = "(Some x, tickCounter s)"
  have tc: "tickCounter ?s' = tickCounter s" and q: "queue ?s' = queue s @ [?e]"
    by (simp_all add: prolong_lifetime_def)
  have zero: "unat (time_subtract (tickCounter s) (snd ?e)) = 0"
    by (simp add: time_subtract_def)
  show ?thesis
  proof (cases "n < 5")
    case True
    then have "unat (time_subtract (tickCounter s) (snd ?e)) + n \<le> 4"
      using zero by simp
    from sweeps_keep[OF tc q this] True show ?thesis by simp
  next
    case False
    then have n: "n = 5 + (n - 5)" by simp
    have five: "sweeps 5 t = tick (sweeps 4 t)" for t :: "'a autorelease_queue"
      using sweeps_snoc[of 4 t] by simp
    have "unat (time_subtract (tickCounter s) (snd ?e)) + 4 \<le> 4"
      using zero by simp
    from sweeps_keep[OF tc q this] zero
    have tc4: "tickCounter (sweeps 4 ?s') = tickCounter (sweeps 4 s)"
      and q4: "queue (sweeps 4 ?s') = queue (sweeps 4 s) @ [?e]"
      and d4: "unat (time_subtract (tickCounter (sweeps 4 s)) (snd ?e)) = 4"
      by simp_all
    from d4 have "should_release (tickCounter (sweeps 4 s)) ?e"
      by (simp add: should_release_small)
    from tick_drop[OF tc4 q4 this]
    have "queue (sweeps (n - 5) (tick (sweeps 4 ?s'))) =
            queue (sweeps (n - 5) (tick (sweeps 4 s))) \<and>
          tickCounter (sweeps (n - 5) (tick (sweeps 4 ?s'))) =
            tickCounter (sweeps (n - 5) (tick (sweeps 4 s)))"
      by (intro sweeps_cong) simp_all
    then have "queue (sweeps (5 + (n - 5)) ?s') = queue (sweeps (5 + (n - 5)) s) \<and>
          tickCounter (sweeps (5 + (n - 5)) ?s') = tickCounter (sweeps (5 + (n - 5)) s)"
      by (simp only: sweeps_add five)
    then show ?thesis
      using False n by simp
  qed
qed

lemma private_entry_sweeps:
  "queue (sweeps n (prolong_lifetime s x False)) =
     queue (sweeps n s) @ (if n < 1 then [(Some x, time_subtract (tickCounter s) 5)] else []) \<and>
   tickCounter (sweeps n (prolong_lifetime s x False)) = tickCounter (sweeps n s)"
proof (cases n)
  case 0
  then show ?thesis by (simp add: prolong_lifetime_def)
next
  case (Suc m)
  let ?s' = "prolong_lifetime s x False"
  let ?e = "(Some x, time_subtract (tickCounter s) 5)"
  have tc: "tickCounter ?s' = tickCounter s" and q: "queue ?s' = queue s @ [?e]"
    by (simp_all add: prolong_lifetime_def)
  have "should_release (tickCounter s) ?e"
    by (simp add: should_release_def backdated_elapsed)
  from tick_drop[OF tc q this]
  have "queue (sweeps m (tick ?s')) = queue (sweeps m (tick s)) \<and>
        tickCounter (sweeps m (tick ?s')) = tickCounter (sweeps m (tick s))"
    by (intro sweeps_cong) simp_all
  then show ?thesis by (simp add: Suc)
qed

lemma released_by_append: "released_by (rs @ rs') = released_by rs @ released_by rs'"
  by (induction rs rule: released_by.induct) simp_all

lemma count_released_by: "count_list (released_by rs) p = count_list rs (Some p)"
  by (induction rs rule: released_by.induct) simp_all

lemma elapsed_sweeps:
  "unat (time_subtract (tickCounter s) p) + n \<le> 4294967294 \<Longrightarrow>
   unat (time_subtract (tickCounter (sweeps n s)) p) = unat (time_subtract (tickCounter s) p) + n"
proof (induction n arbitrary: s)
  case 0
  then show ?case by simp
next
  case (Suc n)
  from Suc.prems
  have d: "unat (time_subtract (tickCounter (tick s)) p) = unat (time_subtract (tickCounter s) p) + 1"
    by (simp add: tickCounter_tick elapsed_step)
  with Suc.prems have "unat (time_subtract (tickCounter (tick s)) p) + n \<le> 4294967294"
    by simp
  from Suc.IH[OF this] d show ?case by simp
qed

lemma queue_tick_keeps: "e \<in> set (queue (tick s)) \<Longrightarrow> \<not> should_release (tickCounter s) e"
  by (simp add: queue_tick)

lemma public_entry_gone: "(r, tickCounter s) \<notin> set (queue (sweeps 5 s))"
proof
  assume "(r, tickCounter s) \<in> set (queue (sweeps 5 s))"
  then have "(r, tickCounter s) \<in> set (queue (tick (sweeps 4 s)))"
    using sweeps_snoc[of 4 s] by simp
  then have keep: "\<not> should_release (tickCounter (sweeps 4 s)) (r, tickCounter s)"
    by (rule queue_tick_keeps)
  have "unat (time_subtract (tickCounter (sweeps 4 s)) (tickCounter s)) = 4"
    using elapsed_sweeps[of s "tickCounter s" 4] by (simp add: time_subtract_def)
  then have "should_release (tickCounter (sweeps 4 s)) (r, tickCounter s)"
    by (simp add: should_release_small)
  with keep show False by simp
qed

lemma tickCounter_sweeps_from_0:
  "tickCounter s = 0 \<Longrightarrow> n \<le> 4294967294 \<Longrightarrow> tickCounter (sweeps n s) = of_nat n"
proof -
  assume z: "tickCounter s = 0" and n: "n \<le> 4294967294"
  have sub0: "time_subtract c 0 = c" for c by (simp add: time_subtract_def)
  have "unat (time_subtract (tickCounter (sweeps n s)) 0) = unat (time_subtract (tickCounter s) 0) + n"
    using n z by (intro elapsed_sweeps) (simp add: sub0)
  then have "unat (tickCounter (sweeps n s)) = n"
    using z by (simp add: sub0)
  then show ?thesis using n by (simp add: word_unat_eq_iff unat_of_nat)
qed

lemma toRelease_tick_scan:
  "toRelease (tick_scan s) = toRelease s @ map fst (filter (should_release (tickCounter s)) (queue s))"
  by (simp add: tick_scan_def Let_def)

lemma toRelease_tick: "toRelease (tick s) = []"
  by (simp add: tick_def clear_toRelease_def u_startTimer_def Let_def)

lemma retained_tick:
  "retained (tick s) =
     retained s @ retained_by (map fst (filter (should_release (tickCounter s)) (queue s)))"
  by (simp add: tick_def tick_scan_def clear_toRelease_def u_startTimer_def Let_def)

lemma released_tick:
  "released (tick s) =
     released s @ released_by (map fst (filter (should_release (tickCounter s)) (queue s))) @
     released_by (toRelease s @ map fst (filter (should_release (tickCounter s)) (queue s)))"
  by (simp add: tick_def tick_scan_def clear_toRelease_def u_startTimer_def Let_def)

lemma released_by_mem: "(p \<in> set (released_by rs)) = (Some p \<in> set rs)"
  by (induction rs rule: released_by.induct) auto

lemma released_tick_expired:
  "(Some p, pushed) \<in> set (queue s) \<Longrightarrow> should_release (tickCounter s) (Some p, pushed) \<Longrightarrow>
   p \<in> set (released (tick s))"
  by (force simp: released_tick released_by_mem)

lemma unat_tickCounter_sweeps:
  "unat (tickCounter s) < 4294967295 \<Longrightarrow>
   unat (tickCounter (sweeps n s)) = (unat (tickCounter s) + n) mod 4294967295"
proof (induction n)
  case 0
  then show ?case by simp
next
  case (Suc n)
  define c where "c = (unat (tickCounter s) + n) mod 4294967295"
  have c: "c < 4294967295"
    by (simp add: c_def)
  have ih: "unat (tickCounter (sweeps n s)) = c"
    using Suc by (simp add: c_def)
  have step: "unat (tickCounter (sweeps (Suc n) s)) = unat (time_add (tickCounter (sweeps n s)) 1)"
    by (simp only: sweeps_snoc tickCounter_tick)
  have add: "unat (time_add (tickCounter (sweeps n s)) 1) = (if Suc c = 4294967295 then 0 else Suc c)"
    using c by (simp add: unat_time_add ih)
  have "Suc (unat (tickCounter s) + n) mod 4294967295 = (if Suc c = 4294967295 then 0 else Suc c)"
    by (simp add: mod_Suc c_def)
  with step add show ?case by simp
qed

lemma time_add_one_below_max: "c \<noteq> time_max \<Longrightarrow> time_add c 1 \<noteq> time_max"
  using unat_bound32[of c]
  by (auto simp: word_unat_eq_iff unat_time_add unat_time_max split: if_splits)

lemma tickCounter_sweeps_below_max:
  "tickCounter s \<noteq> time_max \<Longrightarrow> tickCounter (sweeps n s) \<noteq> time_max"
  by (induction n arbitrary: s) (simp_all add: tickCounter_tick time_add_one_below_max)

lemma time_add_sum_max: "unat a + unat b = unat time_max \<Longrightarrow> time_add a b = 0"
  by (simp add: word_unat_eq_iff unat_time_add unat_time_max)

lemma inversion_left_iff: "(time_subtract (time_add a b) b = a) = (a \<noteq> time_max)"
  apply (simp only: word_unat_eq_iff[of _ a] word_unat_eq_iff[of a time_max])
  using unat_bound32[of a] unat_bound32[of b]
  apply (auto simp: unat_time_subtract unat_time_add unat_time_max)
  done

lemma inversion_right_iff: "(time_subtract (time_add a b) a = b) = (b \<noteq> time_max)"
  apply (simp only: word_unat_eq_iff[of _ b] word_unat_eq_iff[of b time_max])
  using unat_bound32[of a] unat_bound32[of b]
  apply (auto simp: unat_time_subtract unat_time_add unat_time_max)
  done

lemma push_resolved_eq:
  "push_resolved registry old q =
     q @ map (\<lambda>pair. (registry (fst pair), snd pair)) (filter (\<lambda>pair. registry (fst pair) \<noteq> None) old)"
  by (induction old arbitrary: q) (auto split: option.splits)

section \<open>Properties\<close>

subsection \<open>Wrap-around clock\<close>

text \<open>C1, as stated: for all \<open>a\<close> and \<open>b\<close>,
  \<open>time_subtract (time_add a b) b = a\<close>. It fails at \<open>a = MAX\<close>, \<open>b = 0\<close>: the sum is
  \<open>0\<close> and \<open>time_subtract 0 0 = 0\<close>.\<close>

theorem inversion_law_counterexample:
  "time_subtract (time_add time_max 0) 0 \<noteq> time_max"
  by (simp add: time_add_def time_subtract_def time_max_def)

text \<open>C1, amended: \<open>time_subtract (time_add a b) b = a\<close> holds exactly when \<open>a\<close>
  is not the maximum value, and \<open>time_subtract (time_add a b) a = b\<close> exactly when \<open>b\<close> is
  not the maximum value; so both inversions hold for all \<open>a\<close> and \<open>b\<close> below the maximum.\<close>

theorem inversion_law_below_max:
  "(time_subtract (time_add a b) b = a) = (a \<noteq> time_max) \<and>
   (time_subtract (time_add a b) a = b) = (b \<noteq> time_max)"
  by (simp only: inversion_left_iff inversion_right_iff)

theorem inversion_law_below_max_witness:
  "time_subtract (time_add 8 9) 9 = 8 \<and> time_subtract (time_add 8 9) 8 = 9"
  using inversion_law_below_max [of 8 9] by (simp add: time_max_def)

text \<open>C3, as stated: \<open>time_subtract 0 1\<close> is the maximum value. The code computes
  \<open>MAX - (1 - 0)\<close>.\<close>

theorem time_subtract_underflow_counterexample:
  "time_subtract 0 1 \<noteq> time_max"
  by (simp add: time_subtract_def time_max_def)

text \<open>C3, amended: \<open>time_subtract 0 1 = MAX - 1\<close> and \<open>time_subtract 10 20 = MAX - 10\<close>.\<close>

theorem time_subtract_underflow:
  "time_subtract 0 1 = time_max - 1 \<and> time_subtract 10 20 = time_max - 10"
  by (simp add: time_subtract_def time_max_def)

text \<open>C4, as stated: \<open>time_add MAX MAX = MAX - 1\<close>. The code computes
  \<open>MAX - (MAX - MAX)\<close>.\<close>

theorem time_add_boundary_counterexample:
  "time_add time_max time_max \<noteq> time_max - 1"
  by (simp add: time_add_def time_max_def)

text \<open>C4, amended: \<open>time_add MAX 1 = 1\<close> and \<open>time_add MAX MAX = MAX\<close>.\<close>

theorem time_add_boundary:
  "time_add time_max 1 = 1 \<and> time_add time_max time_max = time_max"
  by (simp add: time_add_def time_max_def)

text \<open>C10: whenever \<open>a + b\<close> equals the maximum value without overflow, \<open>time_add a b\<close> is
  \<open>0\<close>, not the maximum; \<open>time_add MAX 0 = 0\<close>, so \<open>0\<close> is not a right identity. Every sweep
  sets the counter to \<open>time_add tickCounter one_tick\<close>, which takes a counter of \<open>MAX - 1\<close> to
  \<open>0\<close>; so a counter that starts at \<open>0\<close> and is advanced only by sweeps never holds the maximum
  value: after \<open>n\<close> sweeps it is \<open>n mod MAX\<close>.\<close>

theorem time_add_skips_max:
  "(unat a + unat b = unat time_max \<longrightarrow> time_add a b = 0) \<and>
   time_add time_max 0 = 0 \<and> time_add time_max 0 \<noteq> time_max \<and>
   time_add (time_max - 1) (word_of_int one_tick) = 0 \<and>
   tickCounter (tick t) = time_add (tickCounter t) (word_of_int one_tick) \<and>
   (tickCounter t = time_max - 1 \<longrightarrow> tickCounter (tick t) = 0) \<and>
   (tickCounter s = 0 \<longrightarrow>
      tickCounter (sweeps n s) \<noteq> time_max \<and>
      unat (tickCounter (sweeps n s)) = n mod unat time_max)"
proof -
  have never: "tickCounter s = 0 \<longrightarrow> tickCounter (sweeps n s) \<noteq> time_max"
    using tickCounter_sweeps_below_max [of s n] by (simp add: time_max_def)
  have modn: "tickCounter s = 0 \<longrightarrow> unat (tickCounter (sweeps n s)) = n mod unat time_max"
    using unat_tickCounter_sweeps [of s n] by (simp add: unat_time_max)
  have wrap: "time_add time_max 0 = 0" "time_add (time_max - 1) 1 = 0"
    by (simp_all add: time_add_def time_max_def)
  have adv: "tickCounter (tick t) = time_add (tickCounter t) 1"
    by (rule tickCounter_tick)
  have "tickCounter t = time_max - 1 \<longrightarrow> tickCounter (tick t) = 0"
    by (simp add: adv wrap)
  with never modn wrap adv show ?thesis
    by (simp add: time_add_sum_max time_max_def)
qed

theorem time_add_skips_max_witness:
  "unat (3 :: time_point) + unat (time_max - 3) = unat time_max \<and>
   time_add 3 (time_max - 3) = 0 \<and>
   tickCounter ((new_queue :: nat autorelease_queue)\<lparr>tickCounter := time_max - 1\<rparr>) =
     time_max - 1 \<and>
   tickCounter (tick ((new_queue :: nat autorelease_queue)\<lparr>tickCounter := time_max - 1\<rparr>)) = 0 \<and>
   tickCounter (new_queue :: nat autorelease_queue) = 0 \<and>
   tickCounter (sweeps 7 (new_queue :: nat autorelease_queue)) \<noteq> time_max \<and>
   unat (tickCounter (sweeps 7 (new_queue :: nat autorelease_queue))) = 7"
proof -
  have h1: "unat (3 :: time_point) + unat (time_max - 3) = unat time_max"
    by (simp add: time_max_def)
  have h2: "tickCounter (new_queue :: nat autorelease_queue) = 0"
    by (simp add: new_queue_def start_def restartTimer_def u_startTimer_def)
  have h3: "tickCounter ((new_queue :: nat autorelease_queue)\<lparr>tickCounter := time_max - 1\<rparr>) =
      time_max - 1"
    by simp
  have m: "7 mod unat time_max = 7"
    by (simp add: time_max_def)
  from h1 h2 h3 m show ?thesis
    using time_add_skips_max [of 3 "time_max - 3"
        "(new_queue :: nat autorelease_queue)\<lparr>tickCounter := time_max - 1\<rparr>"
        "new_queue :: nat autorelease_queue" 7]
    by simp
qed

subsection \<open>Expiry\<close>

text \<open>C2: a public entry pushed at counter \<open>0\<close> is still enqueued after 4 sweeps (counter 4),
  gets a reference in the release list during the scan of the 5th sweep and is absent after it
  (counter 5). For any counter value at insertion, the entry is part of the queue after every
  number of sweeps below \<open>obj_lifeInTicks\<close>, and from \<open>obj_lifeInTicks\<close> sweeps on it is absent
  and its object has been released. Each sweep keeps exactly the entries whose
  \<open>time_subtract tickCounter pushedTick + 1\<close> is below \<open>obj_lifeInTicks\<close>; for the others it
  puts a copy of the reference into the release list (one retain), releases the reference the
  queue held, and releases the release list; it leaves the release list empty and sets the
  counter to \<open>time_add tickCounter one_tick\<close>.\<close>

theorem public_entry_expiry:
  assumes "s' = prolong_lifetime s x True"
  shows
  "(tickCounter s = 0 \<longrightarrow>
      (Some x, 0) \<in> set (queue (sweeps 4 s')) \<and> tickCounter (sweeps 4 s') = 4 \<and>
      Some x \<in> set (toRelease (tick_scan (sweeps 4 s'))) \<and>
      (Some x, 0) \<notin> set (queue (sweeps 5 s')) \<and> tickCounter (sweeps 5 s') = 5) \<and>
   obj_lifeInTicks = 5 \<and>
   (Some x, tickCounter s) \<in> set (queue (sweeps (nat obj_lifeInTicks - 1) s')) \<and>
   (Some x, tickCounter s) \<notin> set (queue (sweeps (nat obj_lifeInTicks) s')) \<and>
   x \<in> set (released (sweeps (nat obj_lifeInTicks) s')) \<and>
   queue (sweeps n s') =
     queue (sweeps n s) @ (if n < nat obj_lifeInTicks then [(Some x, tickCounter s)] else []) \<and>
   queue (tick t) =
     filter (\<lambda>val. \<not> time_subtract (tickCounter t) (snd val) + 1 \<ge> word_of_int obj_lifeInTicks)
       (queue t) \<and>
   toRelease (tick_scan t) =
     toRelease t @
     map fst (filter (\<lambda>val. time_subtract (tickCounter t) (snd val) + 1 \<ge> word_of_int obj_lifeInTicks)
       (queue t)) \<and>
   retained (tick t) =
     retained t @
     retained_by (map fst
       (filter (\<lambda>val. time_subtract (tickCounter t) (snd val) + 1 \<ge> word_of_int obj_lifeInTicks)
         (queue t))) \<and>
   released (tick t) =
     released t @
     released_by (map fst
       (filter (\<lambda>val. time_subtract (tickCounter t) (snd val) + 1 \<ge> word_of_int obj_lifeInTicks)
         (queue t))) @
     released_by (toRelease (tick_scan t)) \<and>
   toRelease (tick t) = [] \<and>
   tickCounter (tick t) = time_add (tickCounter t) (word_of_int one_tick)"
proof -
  let ?e = "(Some x, tickCounter s)"
  have comp: "queue (sweeps k s') = queue (sweeps k s) @ (if k < 5 then [?e] else [])"
    and tc: "tickCounter (sweeps k s') = tickCounter (sweeps k s)" for k
    using public_entry_sweeps [of k s x] assms by simp_all
  have in4: "?e \<in> set (queue (sweeps 4 s'))"
    by (simp add: comp)
  have tcs': "tickCounter s' = tickCounter s"
    using assms by (simp add: prolong_lifetime_def)
  have out5: "?e \<notin> set (queue (sweeps 5 s'))"
    using public_entry_gone [of "Some x" s'] by (simp add: tcs')
  have "unat (time_subtract (tickCounter (sweeps 4 s')) (tickCounter s)) = 4"
    using elapsed_sweeps [of s' "tickCounter s" 4] by (simp add: tcs' time_subtract_def)
  then have due: "should_release (tickCounter (sweeps 4 s')) ?e"
    by (simp add: should_release_small)
  with in4 have marked: "Some x \<in> set (toRelease (tick_scan (sweeps 4 s')))"
    by (force simp: toRelease_tick_scan)
  have "x \<in> set (released (tick (sweeps 4 s')))"
    using in4 due by (rule released_tick_expired)
  then have rel5: "x \<in> set (released (sweeps 5 s'))"
    using sweeps_snoc [of 4 s'] by simp
  have counters: "tickCounter (sweeps 4 s') = 4" "tickCounter (sweeps 5 s') = 5"
    if "tickCounter s = 0"
    using that tickCounter_sweeps_from_0 [of s 4] tickCounter_sweeps_from_0 [of s 5]
    by (simp_all add: tc)
  have general: "queue (sweeps n s') =
      queue (sweeps n s) @ (if n < nat obj_lifeInTicks then [?e] else [])"
    by (simp add: comp obj_lifeInTicks_eq)
  have sweep: "queue (tick t) =
      filter (\<lambda>val. \<not> time_subtract (tickCounter t) (snd val) + 1 \<ge> word_of_int obj_lifeInTicks)
        (queue t)"
    "toRelease (tick_scan t) = toRelease t @
      map fst (filter (\<lambda>val. time_subtract (tickCounter t) (snd val) + 1 \<ge> word_of_int obj_lifeInTicks)
        (queue t))"
    "retained (tick t) =
      retained t @
      retained_by (map fst
        (filter (\<lambda>val. time_subtract (tickCounter t) (snd val) + 1 \<ge> word_of_int obj_lifeInTicks)
          (queue t)))"
    "released (tick t) =
      released t @
      released_by (map fst
        (filter (\<lambda>val. time_subtract (tickCounter t) (snd val) + 1 \<ge> word_of_int obj_lifeInTicks)
          (queue t))) @
      released_by (toRelease (tick_scan t))"
    "toRelease (tick t) = []"
    "tickCounter (tick t) = time_add (tickCounter t) (word_of_int one_tick)"
    by (simp_all add: queue_tick toRelease_tick_scan retained_tick released_tick toRelease_tick
        tickCounter_tick should_release_fun)
  have first: "tickCounter s = 0 \<longrightarrow>
      (Some x, 0) \<in> set (queue (sweeps 4 s')) \<and> tickCounter (sweeps 4 s') = 4 \<and>
      Some x \<in> set (toRelease (tick_scan (sweeps 4 s'))) \<and>
      (Some x, 0) \<notin> set (queue (sweeps 5 s')) \<and> tickCounter (sweeps 5 s') = 5"
    using in4 out5 marked counters by auto
  have last4: "?e \<in> set (queue (sweeps (nat obj_lifeInTicks - 1) s'))"
    and gone5: "?e \<notin> set (queue (sweeps (nat obj_lifeInTicks) s'))"
    and released5: "x \<in> set (released (sweeps (nat obj_lifeInTicks) s'))"
    using in4 out5 rel5 by (simp_all add: obj_lifeInTicks_eq)
  from first obj_lifeInTicks_eq last4 gone5 released5 general sweep show ?thesis
    by blast
qed

theorem public_entry_expiry_witness:
  "tickCounter (new_queue :: nat autorelease_queue) = 0 \<and>
   (Some 7, 0) \<in> set (queue (sweeps 4 (prolong_lifetime new_queue (7 :: nat) True))) \<and>
   tickCounter (sweeps 4 (prolong_lifetime new_queue (7 :: nat) True)) = 4 \<and>
   (Some 7, 0) \<notin> set (queue (sweeps 5 (prolong_lifetime new_queue (7 :: nat) True))) \<and>
   tickCounter (sweeps 5 (prolong_lifetime new_queue (7 :: nat) True)) = 5"
proof -
  have h: "tickCounter (new_queue :: nat autorelease_queue) = 0"
    by (simp add: new_queue_def start_def restartTimer_def u_startTimer_def)
  from h show ?thesis
    using public_entry_expiry [OF refl, of "new_queue :: nat autorelease_queue" 7 3 new_queue]
    by blast
qed

text \<open>C9: for every counter value \<open>T\<close>, also below \<open>obj_lifeInTicks\<close> where the back-dating
  wraps, the elapsed count of a private entry at the next sweep,
  \<open>time_subtract T pushedTick + 1\<close>, is \<open>obj_lifeInTicks + 1\<close>; the entry satisfies the release
  condition, so the first sweep after the insertion moves its reference to the release list
  and removes it from the queue.\<close>

theorem private_entry_first_sweep:
  fixes s :: "'o autorelease_queue" and r :: "'o queue_object_ref"
  shows
  "time_subtract T (time_subtract T (word_of_int obj_lifeInTicks)) + 1 =
     word_of_int obj_lifeInTicks + 1 \<and>
   (word_of_int obj_lifeInTicks + 1 :: time_point) \<ge> word_of_int obj_lifeInTicks \<and>
   should_release T (r, time_subtract T (word_of_int obj_lifeInTicks)) \<and>
   queue (prolong_lifetime s x False) =
     queue s @ [(Some x, time_subtract (tickCounter s) (word_of_int obj_lifeInTicks))] \<and>
   Some x \<in> set (toRelease (tick_scan (prolong_lifetime s x False))) \<and>
   x \<in> set (released (tick (prolong_lifetime s x False))) \<and>
   queue (tick (prolong_lifetime s x False)) = queue (tick s) \<and>
   (Some x, time_subtract (tickCounter s) (word_of_int obj_lifeInTicks))
     \<notin> set (queue (tick (prolong_lifetime s x False)))"
proof -
  let ?s' = "prolong_lifetime s x False"
  let ?e = "(Some x, time_subtract (tickCounter s) 5)"
  have rel: "should_release T (r, time_subtract T 5)" for T :: time_point and r :: "'o option"
    by (simp add: should_release_def backdated_elapsed)
  have q: "queue ?s' = queue s @ [?e]" and tc: "tickCounter ?s' = tickCounter s"
    by (simp_all add: prolong_lifetime_def)
  have marked: "Some x \<in> set (toRelease (tick_scan ?s'))"
    using rel [of "tickCounter s" "Some x"] by (simp add: toRelease_tick_scan q tc)
  have "released_by (rs @ [Some x]) = released_by rs @ [x]" for rs :: "'o option list"
    by (simp add: released_by_append)
  then have rl: "x \<in> set (released (tick ?s'))"
    using rel [of "tickCounter s" "Some x"] by (simp add: released_tick q tc released_by_append)
  have same: "queue (tick ?s') = queue (tick s)"
    using rel [of "tickCounter s" "Some x"] by (simp add: queue_tick q tc)
  have gone: "?e \<notin> set (queue (tick ?s'))"
    using rel [of "tickCounter s" "Some x"] by (simp add: queue_tick tc)
  from rel [of T r] q marked rl same gone show ?thesis
    by (simp add: backdated_elapsed)
qed

text \<open>C5: \<open>prolong_lifetime\<close> appends one entry for the object; its pushed tick is the current
  counter for a public prolongation and \<open>time_subtract tickCounter obj_lifeInTicks\<close> for a
  private one. After any number of sweeps the private entry is part of the queue only before the
  first sweep and the public one only before sweep \<open>obj_lifeInTicks\<close>, so whenever the public
  entry has left the queue, the private entry of the same object pushed at the same tick has
  left it too.\<close>

theorem prolong_lifetime_pushed_tick:
  "queue (prolong_lifetime s object isPublic) =
     queue s @ [(Some object,
                 if isPublic then tickCounter s
                 else time_subtract (tickCounter s) (word_of_int obj_lifeInTicks))] \<and>
   tickCounter (prolong_lifetime s object isPublic) = tickCounter s \<and>
   queue (sweeps n (prolong_lifetime s object False)) =
     queue (sweeps n s) @
     (if n < 1 then [(Some object, time_subtract (tickCounter s) (word_of_int obj_lifeInTicks))]
      else []) \<and>
   queue (sweeps n (prolong_lifetime s object True)) =
     queue (sweeps n s) @
     (if n < nat obj_lifeInTicks then [(Some object, tickCounter s)] else []) \<and>
   (queue (sweeps n (prolong_lifetime s object True)) = queue (sweeps n s) \<longrightarrow>
    queue (sweeps n (prolong_lifetime s object False)) = queue (sweeps n s))"
proof -
  have app: "queue (prolong_lifetime s object isPublic) =
     queue s @ [(Some object,
                 if isPublic then tickCounter s
                 else time_subtract (tickCounter s) (word_of_int obj_lifeInTicks))]"
    and tc: "tickCounter (prolong_lifetime s object isPublic) = tickCounter s"
    by (simp_all add: prolong_lifetime_def)
  have priv: "queue (sweeps n (prolong_lifetime s object False)) =
     queue (sweeps n s) @
     (if n < 1 then [(Some object, time_subtract (tickCounter s) (word_of_int obj_lifeInTicks))]
      else [])"
    using private_entry_sweeps [of n s object] by simp
  have pub: "queue (sweeps n (prolong_lifetime s object True)) =
     queue (sweeps n s) @
     (if n < nat obj_lifeInTicks then [(Some object, tickCounter s)] else [])"
    using public_entry_sweeps [of n s object] by (simp add: obj_lifeInTicks_eq)
  have "queue (sweeps n (prolong_lifetime s object True)) = queue (sweeps n s) \<longrightarrow>
    queue (sweeps n (prolong_lifetime s object False)) = queue (sweeps n s)"
    by (simp add: priv pub obj_lifeInTicks_eq)
  with app tc priv pub show ?thesis
    by blast
qed

theorem prolong_lifetime_pushed_tick_witness:
  "queue (sweeps 5 (prolong_lifetime new_queue (7 :: nat) True)) = queue (sweeps 5 new_queue) \<and>
   queue (sweeps 5 (prolong_lifetime new_queue (7 :: nat) False)) = queue (sweeps 5 new_queue)"
proof -
  have "queue (sweeps 5 (prolong_lifetime new_queue (7 :: nat) True)) = queue (sweeps 5 new_queue)"
    using prolong_lifetime_pushed_tick [of "new_queue :: nat autorelease_queue" 7 True 5]
    by (simp add: obj_lifeInTicks_eq)
  then show ?thesis
    using prolong_lifetime_pushed_tick [of "new_queue :: nat autorelease_queue" 7 True 5]
    by blast
qed

subsection \<open>Clearing\<close>

text \<open>C7: the member calls that \<open>u_clear\<close> makes are, in this order, the cancellation of the
  timer, the write of the counter, \<open>_queue.clear()\<close> and \<open>_toRelease.clear()\<close>; so the timer is
  stopped before the queue is touched, and stopping leaves queue, release list, counter and
  both reference logs as they are. Afterwards the queue and the release list are empty,
  \<open>count\<close> is \<open>0\<close>, the counter is \<open>0\<close>, no timer wait is pending, nothing has been retained, and
  the release log has grown by exactly one release for every non-null reference that the queue
  or the release list held.\<close>

theorem u_clear_discharges:
  "queue (u_clear s) = [] \<and> count (u_clear s) = 0 \<and> toRelease (u_clear s) = [] \<and>
   tickCounter (u_clear s) = 0 \<and> \<not> timer_pending (u_clear s) \<and>
   released (u_clear s) =
     released s @ released_by (map fst (queue s)) @ released_by (toRelease s) \<and>
   (\<forall>p. count_list (released (u_clear s)) p =
     count_list (released s) p + count_list (map fst (queue s) @ toRelease s) (Some p)) \<and>
   retained (u_clear s) = retained s \<and>
   trace (u_clear s) = trace s @ [Timer_cancel, Counter_write, Queue_clear, ToRelease_clear] \<and>
   trace (stop s) = trace s @ [Timer_cancel] \<and>
   u_clear s =
     clear_toRelease (clear_queue ((stop s)\<lparr>tickCounter := 0,
       trace := trace (stop s) @ [Counter_write]\<rparr>)) \<and>
   \<not> timer_pending (stop s) \<and> queue (stop s) = queue s \<and> toRelease (stop s) = toRelease s \<and>
   tickCounter (stop s) = tickCounter s \<and> released (stop s) = released s \<and>
   retained (stop s) = retained s"
proof -
  have rel: "released (u_clear s) =
      released s @ released_by (map fst (queue s)) @ released_by (toRelease s)"
    by (simp add: u_clear_def stop_def clear_queue_def clear_toRelease_def)
  have cnt: "count_list (released (u_clear s)) p =
      count_list (released s) p + count_list (map fst (queue s) @ toRelease s) (Some p)" for p
    by (simp add: rel count_released_by)
  have tr: "trace (u_clear s) =
      trace s @ [Timer_cancel, Counter_write, Queue_clear, ToRelease_clear]"
    by (simp add: u_clear_def stop_def clear_queue_def clear_toRelease_def)
  have fields: "queue (u_clear s) = []" "count (u_clear s) = 0" "toRelease (u_clear s) = []"
    "tickCounter (u_clear s) = 0" "\<not> timer_pending (u_clear s)" "retained (u_clear s) = retained s"
    by (simp_all add: u_clear_def stop_def clear_queue_def clear_toRelease_def
        count_def u_count_def)
  have stopped: "trace (stop s) = trace s @ [Timer_cancel]" "\<not> timer_pending (stop s)"
    "queue (stop s) = queue s" "toRelease (stop s) = toRelease s"
    "tickCounter (stop s) = tickCounter s" "released (stop s) = released s"
    "retained (stop s) = retained s"
    by (simp_all add: stop_def)
  have unfolded: "u_clear s =
     clear_toRelease (clear_queue ((stop s)\<lparr>tickCounter := 0,
       trace := trace (stop s) @ [Counter_write]\<rparr>))"
    by (simp add: u_clear_def Let_def)
  from rel cnt tr fields stopped unfolded show ?thesis
    by blast
qed

subsection \<open>Loading\<close>

text \<open>C6: in every branch the tick counter is the first value read, and the queue is read from
  the rest of the archive. Version 1 takes the pairs as read. Version 0 reads handle pairs and
  appends, in order, the pairs whose handle the registry resolves, with the resolved object;
  the other pairs are dropped and the load succeeds. Every other version ends in the failed
  assertion, with no result.\<close>

theorem load_versions:
  assumes "read_time ops ar = (t, ar1)"
    and "read_queue ops ar1 = (q, ar2)"
    and "read_queue_old ops ar1 = (old, ar2')"
  shows
  "(\<exists>s'. load ops registry ar 1 s = Inr (s', ar2) \<and> tickCounter s' = t \<and> queue s' = q) \<and>
   (\<exists>s'. load ops registry ar 0 s = Inr (s', ar2') \<and> tickCounter s' = t \<and>
      queue s' =
        queue s @ map (\<lambda>pair. (registry (fst pair), snd pair))
                    (filter (\<lambda>pair. registry (fst pair) \<noteq> None) old)) \<and>
   (version \<noteq> 0 \<and> version \<noteq> 1 \<longrightarrow> load ops registry ar version s = Inl assertion_failed)"
  using assms by (simp add: load_def push_resolved_eq)

theorem load_versions_witness:
  "load \<lparr>read_time = (\<lambda>pos. (7, Suc pos)),
         read_queue = (\<lambda>pos. ([(Some 10, 3)], Suc pos)),
         read_queue_old = (\<lambda>pos. ([(1, 3), (2, 4)], Suc pos))\<rparr>
        (\<lambda>h. if h = (1 :: nat) then Some (10 :: nat) else None) (0 :: nat) 2
        (new_queue :: nat autorelease_queue) = Inl assertion_failed \<and>
   (\<exists>s'. load \<lparr>read_time = (\<lambda>pos. (7, Suc pos)),
         read_queue = (\<lambda>pos. ([(Some 10, 3)], Suc pos)),
         read_queue_old = (\<lambda>pos. ([(1, 3), (2, 4)], Suc pos))\<rparr>
        (\<lambda>h. if h = (1 :: nat) then Some (10 :: nat) else None) (0 :: nat) 0
        (new_queue :: nat autorelease_queue) = Inr (s', 2) \<and>
      tickCounter s' = 7 \<and> queue s' = [(Some 10, 3)])"
proof -
  let ?ops = "\<lparr>read_time = (\<lambda>pos. (7 :: time_point, Suc pos)),
         read_queue = (\<lambda>pos. ([(Some (10 :: nat), 3 :: time_point)], Suc pos)),
         read_queue_old = (\<lambda>pos. ([(1 :: nat, 3 :: time_point), (2, 4)], Suc pos))\<rparr>"
  have h1: "read_time ?ops 0 = (7, 1)"
    and h2: "read_queue ?ops 1 = ([(Some 10, 3)], 2)"
    and h3: "read_queue_old ?ops 1 = ([(1, 3), (2, 4)], 2)"
    by simp_all
  have q0: "queue (new_queue :: nat autorelease_queue) = []"
    by (simp add: new_queue_def start_def restartTimer_def u_startTimer_def)
  show ?thesis
    using load_versions [OF h1 h2 h3, of "\<lambda>h. if h = (1 :: nat) then Some (10 :: nat) else None"
        "new_queue :: nat autorelease_queue" 2]
    by (simp add: q0)
qed

end
